theory Spec2Isabelle
  imports Complex_Main "HOL-Library.Log_Nat"
begin

section \<open>Exceptions\<close>

text \<open>
  Every exception that \<^verbatim>\<open>resize_data.py\<close> can raise on the paths modelled here is a
  value. \<open>ValueError\<close> carries its message, which tells the \<open>raise\<close> of the transformer
  (line 21) from the one of the resampling step and from the one of \<open>os.path.relpath\<close>.
\<close>

datatype error =
    ZeroDivisionError
  | OverflowError
  | ValueError string
  | UnidentifiedImageError

definition bnd :: "error + 'a \<Rightarrow> ('a \<Rightarrow> error + 'b) \<Rightarrow> error + 'b" where
  "bnd m f = (case m of Inl e \<Rightarrow> Inl e | Inr x \<Rightarrow> f x)"

section \<open>Python floats\<close>

text \<open>
  \<open>max_size / img.width\<close> is Python's true division of two ints and \<open>img.width * ratio\<close>
  is an int times a float: both produce IEEE 754 binary64 values, rounded to nearest with
  ties to even. A finite double is modelled by the rational number it denotes; the two
  zeros are one value, since neither the comparison in \<open>min\<close>/\<open>max\<close> nor \<open>int()\<close> can
  tell them apart. An infinite product is \<open>None\<close>. No operation of the program yields a NaN.

  \<open>expo q\<close> is the binary exponent of \<open>q\<close> (\<open>2 powi expo q \<le> \<bar>q\<bar> < 2 powi (expo q + 1)\<close>),
  \<open>ulp q\<close> the spacing of the doubles around \<open>q\<close> (53 significant bits, subnormal below
  \<open>2 powi - 1022\<close>) and \<open>fl q\<close> the double nearest to \<open>q\<close> when the exponent range is
  unbounded above; a result of exponent 1024 or more, that is of magnitude \<open>2 ^ 1024\<close>
  or more (lemma \<open>overflows_iff\<close>), is an overflow.
\<close>

definition rne :: "rat \<Rightarrow> int" where
  "rne x = (let f = \<lfloor>x\<rfloor>; r = x - of_int f
            in if r < 1 / 2 then f
               else if 1 / 2 < r then f + 1
               else if even f then f else f + 1)"

definition expo :: "rat \<Rightarrow> int" where
  "expo q = (if 1 \<le> \<bar>q\<bar> then bitlen \<lfloor>\<bar>q\<bar>\<rfloor> - 1
             else - bitlen (\<lceil>1 / \<bar>q\<bar>\<rceil> - 1))"

definition ulp :: "rat \<Rightarrow> rat" where
  "ulp q = 2 powi (max (expo q) (- 1022) - 52)"

definition fl :: "rat \<Rightarrow> rat" where
  "fl q = of_int (rne (q / ulp q)) * ulp q"

definition overflows :: "rat \<Rightarrow> bool" where
  "overflows r = (1024 \<le> expo r)"

text \<open>A rounded result either fits the exponent range or is an overflow.\<close>

definition finite_or_raise :: "rat \<Rightarrow> error + rat" where
  "finite_or_raise r = (if overflows r then Inl OverflowError else Inr r)"

definition finite_or_inf :: "rat \<Rightarrow> rat option" where
  "finite_or_inf r = (if overflows r then None else Some r)"

text \<open>\<open>a / b\<close> on ints: correctly rounded, \<open>ZeroDivisionError\<close>, \<open>OverflowError\<close>.\<close>

definition true_div :: "int \<Rightarrow> int \<Rightarrow> error + rat" where
  "true_div a b =
     (if b = 0 then Inl ZeroDivisionError
      else finite_or_raise (fl (of_int a / of_int b)))"

text \<open>The conversion of the int operand of \<open>int * float\<close>.\<close>

definition long_as_double :: "int \<Rightarrow> error + rat" where
  "long_as_double a = finite_or_raise (fl (of_int a))"

text \<open>The product of two doubles: it does not raise, it overflows to an infinity.\<close>

definition float_mul :: "rat \<Rightarrow> rat \<Rightarrow> rat option" where
  "float_mul x y = finite_or_inf (fl (x * y))"

definition int_mul_float :: "int \<Rightarrow> rat \<Rightarrow> error + rat option" where
  "int_mul_float a y = bnd (long_as_double a) (\<lambda>x. Inr (float_mul x y))"

text \<open>\<open>int(x)\<close> truncates toward zero and raises \<open>OverflowError\<close> on an infinity.\<close>

definition trunc :: "rat \<Rightarrow> int" where
  "trunc x = (if 0 \<le> x then \<lfloor>x\<rfloor> else \<lceil>x\<rceil>)"

definition int_of_float :: "rat option \<Rightarrow> error + int" where
  "int_of_float x = (case x of None \<Rightarrow> Inl OverflowError | Some r \<Rightarrow> Inr (trunc r))"

text \<open>\<open>min(a, b)\<close> and \<open>max(a, b)\<close> return the first argument unless the second beats it.\<close>

definition py_min :: "rat \<Rightarrow> rat \<Rightarrow> rat" where
  "py_min a b = (if b < a then b else a)"

definition py_max :: "rat \<Rightarrow> rat \<Rightarrow> rat" where
  "py_max a b = (if b > a then b else a)"

section \<open>The new size (lines 16 to 23 of \<^verbatim>\<open>resize_image\<close>)\<close>

text \<open>
  \<open>max_size\<close> and \<open>min_size\<close> are \<open>None\<close> or an int (the command line parses them with
  \<open>type=int\<close>); the tests are \<open>is not None\<close>, so \<open>Some 0\<close> selects a branch.
\<close>

definition ratio :: "int \<Rightarrow> int \<Rightarrow> int option \<Rightarrow> int option \<Rightarrow> error + rat" where
  "ratio w h max_size min_size =
     (case max_size of
        Some M \<Rightarrow> bnd (true_div M w) (\<lambda>a. bnd (true_div M h) (\<lambda>b. Inr (py_min a b)))
      | None \<Rightarrow>
          (case min_size of
             Some m \<Rightarrow> bnd (true_div m w) (\<lambda>a. bnd (true_div m h) (\<lambda>b. Inr (py_max a b)))
           | None \<Rightarrow> Inl (ValueError ''Either max_size or min_size must be specified.'')))"

definition scaled :: "int \<Rightarrow> rat \<Rightarrow> error + int" where
  "scaled a r = bnd (int_mul_float a r) int_of_float"

definition new_size :: "int \<Rightarrow> int \<Rightarrow> int option \<Rightarrow> int option \<Rightarrow> error + (int \<times> int)" where
  "new_size w h max_size min_size =
     bnd (ratio w h max_size min_size) (\<lambda>r.
       bnd (scaled w r) (\<lambda>nw.
         bnd (scaled h r) (\<lambda>nh. Inr (nw, nh))))"

section \<open>The image object and the library calls on it\<close>

text \<open>
  What the program reads and writes of a PIL image: its size, its mode, the format tag of
  the file it was decoded from and the \<open>info\<close> dictionary, which holds the metadata of
  the file (EXIF block, ICC profile, text chunks). The pixels play no part in any
  property below and are left out.

  The three library calls are modelled by their effect on these attributes.
  \<open>convert\<close> returns a new image in the requested mode; the new object has no format
  tag (which is why line 10 reads it first) and a copy of \<open>info\<close>. \<open>resize\<close> returns
  a copy when the size is unchanged, refuses a width or height below 1 and otherwise
  returns an image of the requested size in the same mode, again with a copy of \<open>info\<close>.
  Resource limits of the library (memory, the range of a C int) are not modelled.
\<close>

record image =
  width :: int
  height :: int
  mode :: string
  format :: "string option"
  info :: "string \<rightharpoonup> string"

definition convert :: "image \<Rightarrow> string \<Rightarrow> image" where
  "convert im m = im\<lparr>mode := m, format := None\<rparr>"

definition resize :: "image \<Rightarrow> int \<times> int \<Rightarrow> error + image" where
  "resize im sz =
     (if sz = (width im, height im) then Inr im
      else if fst sz < 1 \<or> snd sz < 1 then Inl (ValueError ''height and width must be > 0'')
      else Inr (im\<lparr>width := fst sz, height := snd sz\<rparr>))"

section \<open>Strings and paths\<close>

text \<open>
  \<open>str.upper\<close> and \<open>str.lower\<close> on ASCII text; format tags and the five suffixes of
  the walker are ASCII.
\<close>

definition upper_char :: "char \<Rightarrow> char" where
  "upper_char c = (let n = (of_char c :: nat) in if 97 \<le> n \<and> n \<le> 122 then char_of (n - 32) else c)"

definition lower_char :: "char \<Rightarrow> char" where
  "lower_char c = (let n = (of_char c :: nat) in if 65 \<le> n \<and> n \<le> 90 then char_of (n + 32) else c)"

definition upper :: "string \<Rightarrow> string" where
  "upper s = map upper_char s"

definition lower :: "string \<Rightarrow> string" where
  "lower s = map lower_char s"

definition startswith :: "string \<Rightarrow> string \<Rightarrow> bool" where
  "startswith s t = (take (length t) s = t)"

definition endswith :: "string \<Rightarrow> string \<Rightarrow> bool" where
  "endswith s t = (length t \<le> length s \<and> drop (length s - length t) s = t)"

text \<open>\<open>s.rfind(c)\<close>: the last index of \<open>c\<close> in \<open>s\<close>, or \<open>-1\<close>.\<close>

fun rfind :: "string \<Rightarrow> char \<Rightarrow> int" where
  "rfind [] c = - 1"
| "rfind (x # xs) c =
     (let r = rfind xs c in if 0 \<le> r then r + 1 else if x = c then 0 else - 1)"

text \<open>
  \<open>os.path.splitext\<close> (POSIX): the extension starts at the last dot of the last
  component, unless only dots precede it there. The loop over \<open>filenameIndex\<close> returns
  at the first character of \<open>p[sepIndex + 1 : dotIndex]\<close> that is not a dot.
\<close>

fun has_non_dot :: "string \<Rightarrow> bool" where
  "has_non_dot [] = False"
| "has_non_dot (c # cs) = (if c \<noteq> CHR ''.'' then True else has_non_dot cs)"

definition splitext :: "string \<Rightarrow> string \<times> string" where
  "splitext p =
     (let sepIndex = rfind p CHR ''/''; dotIndex = rfind p CHR ''.''
      in if sepIndex < dotIndex \<and>
            has_non_dot (take (nat (dotIndex - (sepIndex + 1))) (drop (nat (sepIndex + 1)) p))
         then (take (nat dotIndex) p, drop (nat dotIndex) p)
         else (p, []))"

text \<open>\<open>os.path.join\<close> of two paths, and of a first path with a list of further ones.\<close>

definition join :: "string \<Rightarrow> string \<Rightarrow> string" where
  "join a b =
     (if startswith b ''/'' then b
      else if a = [] \<or> endswith a ''/'' then a @ b
      else a @ ''/'' @ b)"

definition join_all :: "string \<Rightarrow> string list \<Rightarrow> string" where
  "join_all a ps = foldl join a ps"

text \<open>\<open>path.split('/')\<close> and \<open>'/'.join(comps)\<close>.\<close>

fun str_split :: "string \<Rightarrow> string list" where
  "str_split [] = [Nil]"
| "str_split (c # cs) =
     (if c = CHR ''/'' then [] # str_split cs
      else (case str_split cs of [] \<Rightarrow> [c # Nil] | x # xs \<Rightarrow> (c # x) # xs))"

fun sep_join :: "string list \<Rightarrow> string" where
  "sep_join [] = []"
| "sep_join [x] = x"
| "sep_join (x # y # ys) = x @ ''/'' @ sep_join (y # ys)"

text \<open>
  \<open>os.path.normpath\<close> (POSIX): one or two leading slashes are kept, three or more
  become one; empty and \<open>.\<close> components are dropped; \<open>..\<close> removes the component before
  it where there is one to remove.
\<close>

definition initial_slashes :: "string \<Rightarrow> nat" where
  "initial_slashes path =
     (if startswith path ''/'' then
        (if startswith path ''//'' \<and> \<not> startswith path ''///'' then 2 else 1)
      else 0)"

definition norm_step :: "nat \<Rightarrow> string list \<Rightarrow> string \<Rightarrow> string list" where
  "norm_step slashes new_comps c =
     (if c = [] \<or> c = ''.'' then new_comps
      else if c \<noteq> ''..'' \<or> (slashes = 0 \<and> new_comps = []) \<or>
              (new_comps \<noteq> [] \<and> last new_comps = ''..'')
           then new_comps @ [c]
      else if new_comps \<noteq> [] then butlast new_comps
      else new_comps)"

definition norm_comps :: "string \<Rightarrow> string list" where
  "norm_comps path = foldl (norm_step (initial_slashes path)) [] (str_split path)"

definition normpath :: "string \<Rightarrow> string" where
  "normpath path =
     (if path = [] then ''.''
      else let p = replicate (initial_slashes path) CHR ''/'' @ sep_join (norm_comps path)
           in if p = [] then ''.'' else p)"

text \<open>
  \<open>os.path.abspath\<close> reads the current directory of the process, which is a parameter
  here (\<open>cwd\<close>, an absolute path).
\<close>

definition isabs :: "string \<Rightarrow> bool" where
  "isabs s = startswith s ''/''"

definition abspath :: "string \<Rightarrow> string \<Rightarrow> string" where
  "abspath cwd path = normpath (if isabs path then path else join cwd path)"

text \<open>
  \<open>os.path.commonprefix\<close> of two lists is their longest common prefix (the library
  compares the least with the greatest of the lists given, which for two lists are
  these two).
\<close>

fun commonprefix :: "'a list \<Rightarrow> 'a list \<Rightarrow> 'a list" where
  "commonprefix (x # xs) (y # ys) = (if x = y then x # commonprefix xs ys else [])"
| "commonprefix xs ys = []"

definition path_list :: "string \<Rightarrow> string list" where
  "path_list p = filter (\<lambda>x. x \<noteq> []) (str_split p)"

definition relpath :: "string \<Rightarrow> string \<Rightarrow> string \<Rightarrow> error + string" where
  "relpath cwd path start =
     (if path = [] then Inl (ValueError ''no path specified'')
      else let start_list = path_list (abspath cwd start);
               path_list = path_list (abspath cwd path);
               i = length (commonprefix start_list path_list);
               rel_list = replicate (length start_list - i) ''..'' @ drop i path_list
           in if rel_list = [] then Inr ''.''
              else Inr (join_all (hd rel_list) (tl rel_list)))"

section \<open>\<^verbatim>\<open>resize_image\<close>\<close>

text \<open>
  The file written by \<open>resized_img.save(output_path, **save_params)\<close>: where, with which
  keyword arguments, and the image object that is encoded.
\<close>

datatype param = Str string | Flag bool | Num int

record saved =
  sv_path :: string
  sv_params :: "(string \<times> param) list"
  sv_image :: image

definition valid_formats :: "string \<rightharpoonup> string" where
  "valid_formats =
     map_of [(''JPEG'', ''jpg''), (''PNG'', ''png''), (''BMP'', ''bmp''), (''GIF'', ''gif'')]"

text \<open>Line 10: \<open>img.format.upper() if img.format else None\<close>; an empty tag is falsy.\<close>

definition original_format :: "image \<Rightarrow> string option" where
  "original_format img =
     (case format img of
        None \<Rightarrow> None
      | Some f \<Rightarrow> if f = [] then None else Some (upper f))"

text \<open>Lines 33 to 38: the pair \<open>(extension, save_format)\<close>.\<close>

definition choose_format :: "bool \<Rightarrow> string option \<Rightarrow> string \<times> string" where
  "choose_format keep_format orig =
     (if keep_format \<and> (case orig of None \<Rightarrow> False | Some f \<Rightarrow> valid_formats f \<noteq> None)
      then (the (valid_formats (the orig)), the orig)
      else (''png'', ''PNG''))"

text \<open>Lines 42 to 46.\<close>

definition save_params :: "string \<Rightarrow> string \<Rightarrow> (string \<times> param) list" where
  "save_params extension save_format =
     (''format'', Str save_format) #
     (if extension = ''png'' then [(''optimize'', Flag True), (''compress_level'', Num 9)]
      else if extension = ''jpg'' then [(''quality'', Num 95)]
      else [])"

text \<open>
  Lines 26 to 48, once the resampling has returned \<open>resized_img\<close>: clear \<open>info\<close>, choose
  the format, replace the extension of \<open>output_path\<close> and save.
\<close>

definition save_resized :: "image \<Rightarrow> string option \<Rightarrow> string \<Rightarrow> bool \<Rightarrow> saved" where
  "save_resized resized_img orig output_path keep_format =
     (case choose_format keep_format orig of (extension, save_format) \<Rightarrow>
        \<lparr>sv_path = fst (splitext output_path) @ ''.'' @ extension,
         sv_params = save_params extension save_format,
         sv_image = resized_img\<lparr>info := Map.empty\<rparr>\<rparr>)"

text \<open>
  \<open>opened\<close> is what \<open>Image.open(image_path)\<close> gives: the decoded image or the exception.
\<close>

definition resize_image ::
  "error + image \<Rightarrow> string \<Rightarrow> int option \<Rightarrow> int option \<Rightarrow> bool \<Rightarrow> error + saved" where
  "resize_image opened output_path max_size min_size keep_format =
     bnd opened (\<lambda>img0.
       bnd (new_size (width (convert img0 ''RGB'')) (height (convert img0 ''RGB''))
              max_size min_size) (\<lambda>sz.
         bnd (resize (convert img0 ''RGB'') sz) (\<lambda>resized_img.
           Inr (save_resized resized_img (original_format img0) output_path keep_format))))"

section \<open>The file that \<open>save\<close> writes\<close>





section \<open>\<^verbatim>\<open>resize_dataset\<close>\<close>

text \<open>
  The directory tree under \<open>input_dir\<close> as \<open>os.walk\<close> sees it: names of files and of
  directories with their entries. \<open>walk\<close> yields the pairs \<open>(root, files)\<close> top-down, the
  directory itself before its subdirectories.
\<close>

datatype node = File string | Dir string "node list"

fun file_names :: "node list \<Rightarrow> string list" where
  "file_names [] = []"
| "file_names (File f # es) = f # file_names es"
| "file_names (Dir d sub # es) = file_names es"

fun walk :: "string \<Rightarrow> node list \<Rightarrow> (string \<times> string list) list"
  and walk_dirs :: "string \<Rightarrow> node list \<Rightarrow> (string \<times> string list) list" where
  "walk topdir entries = (topdir, file_names entries) # walk_dirs topdir entries"
| "walk_dirs topdir [] = []"
| "walk_dirs topdir (File f # es) = walk_dirs topdir es"
| "walk_dirs topdir (Dir d sub # es) = walk (join topdir d) sub @ walk_dirs topdir es"

definition is_image_name :: "string \<Rightarrow> bool" where
  "is_image_name file =
     list_ex (endswith (lower file)) [''png'', ''jpg'', ''jpeg'', ''bmp'', ''gif'']"

definition all_image_paths :: "string \<Rightarrow> node list \<Rightarrow> string list" where
  "all_image_paths input_dir entries =
     concat (map (\<lambda>(root, files). map (join root) (filter is_image_name files))
                 (walk input_dir entries))"

text \<open>
  The loop of lines 64 to 71. \<open>opener p\<close> is the result of \<open>Image.open(p)\<close> at the moment
  the loop reaches \<open>p\<close>. The value is the list of files saved, in order, and the exception
  that stopped the loop, if one did. Creating directories writes no file and is not
  recorded.
\<close>

fun resize_all ::
  "string \<Rightarrow> (string \<Rightarrow> error + image) \<Rightarrow> string \<Rightarrow> string \<Rightarrow> int option \<Rightarrow> int option \<Rightarrow> bool \<Rightarrow>
   string list \<Rightarrow> saved list \<times> error option" where
  "resize_all cwd opener input_dir output_dir max_size min_size keep_format [] = ([], None)"
| "resize_all cwd opener input_dir output_dir max_size min_size keep_format (input_path # rest) =
     (case relpath cwd input_path input_dir of
        Inl e \<Rightarrow> ([], Some e)
      | Inr rel \<Rightarrow>
          (case resize_image (opener input_path) (join output_dir rel)
                  max_size min_size keep_format of
             Inl e \<Rightarrow> ([], Some e)
           | Inr s \<Rightarrow>
               (case resize_all cwd opener input_dir output_dir max_size min_size keep_format rest of
                  (ws, e) \<Rightarrow> (s # ws, e))))"

definition resize_dataset ::
  "string \<Rightarrow> (string \<Rightarrow> error + image) \<Rightarrow> node list \<Rightarrow> string \<Rightarrow> string \<Rightarrow>
   int option \<Rightarrow> int option \<Rightarrow> bool \<Rightarrow> saved list \<times> error option" where
  "resize_dataset cwd opener entries input_dir output_dir max_size min_size keep_format =
     resize_all cwd opener input_dir output_dir max_size min_size keep_format
       (all_image_paths input_dir entries)"

text \<open>
  The names that a directory can hold: not empty, without a slash, and neither \<open>.\<close> nor
  \<open>..\<close>. A tree is well formed when all its names are.
\<close>

definition valid_name :: "string \<Rightarrow> bool" where
  "valid_name n = (n \<noteq> [] \<and> CHR ''/'' \<notin> set n \<and> n \<noteq> ''.'' \<and> n \<noteq> ''..'')"

fun valid_entries :: "node list \<Rightarrow> bool" where
  "valid_entries [] = True"
| "valid_entries (File f # es) = (valid_name f \<and> valid_entries es)"
| "valid_entries (Dir d sub # es) = (valid_name d \<and> valid_entries sub \<and> valid_entries es)"

text \<open>
  A saved file mirrors a source file when its path relative to \<open>output_dir\<close> is the path
  of the source relative to \<open>input_dir\<close> with the extension replaced by one of the four
  that \<^verbatim>\<open>resize_image\<close> chooses from.
\<close>

definition mirrored :: "string \<Rightarrow> string \<Rightarrow> string \<Rightarrow> string \<Rightarrow> saved \<Rightarrow> bool" where
  "mirrored cwd input_dir output_dir input_path s =
     (case relpath cwd input_path input_dir of
        Inl e \<Rightarrow> False
      | Inr rel \<Rightarrow>
          list_ex (\<lambda>ext. relpath cwd (sv_path s) output_dir
                           = Inr (fst (splitext rel) @ ''.'' @ ext))
                  [''jpg'', ''png'', ''bmp'', ''gif''])"

section \<open>The command line\<close>

text \<open>
  \<open>args.max_size\<close> and \<open>args.min_size\<close> are \<open>None\<close> or an int. Lines 87 and 90 test their
  truth value: \<open>None\<close> and \<open>0\<close> are false. \<open>parser.error\<close> prints the usage message and
  exits with status 2.
\<close>

definition truthy :: "int option \<Rightarrow> bool" where
  "truthy x = (case x of None \<Rightarrow> False | Some n \<Rightarrow> n \<noteq> 0)"

datatype outcome = UsageError string | Ran "saved list \<times> error option"

definition main ::
  "string \<Rightarrow> (string \<Rightarrow> error + image) \<Rightarrow> node list \<Rightarrow> string \<Rightarrow> string \<Rightarrow>
   int option \<Rightarrow> int option \<Rightarrow> bool \<Rightarrow> outcome" where
  "main cwd opener entries input_directory output_directory max_size min_size keep_format =
     (if truthy max_size \<and> truthy min_size
      then UsageError ''Specify either --max_size or --min_size, not both.''
      else if \<not> truthy max_size \<and> \<not> truthy min_size
      then UsageError ''Either --max_size or --min_size must be specified.''
      else Ran (resize_dataset cwd opener entries input_directory output_directory
                  max_size min_size keep_format))"

section \<open>Sample images\<close>

definition example_image :: image where
  "example_image = \<lparr>width = 4000, height = 2000, mode = ''RGBA'', format = Some ''jpeg'',
                     info = [''exif'' \<mapsto> ''Canon'', ''icc_profile'' \<mapsto> ''sRGB'']\<rparr>"



section \<open>The rounding function\<close>

text \<open>
  The exponent brackets the magnitude, so \<open>ulp\<close> is the spacing of the doubles there;
  \<open>fl\<close> never crosses a multiple of that spacing, and fixes every such multiple.
\<close>

lemma bitlen_lower: "0 < n \<Longrightarrow> (2::rat) powi (bitlen n - 1) \<le> of_int n"
proof -
  assume n: "0 < n"
  then have b: "1 \<le> bitlen n" using bitlen_eq_zero_iff [of n] bitlen_nonneg [of n] by linarith
  from bitlen_bounds [OF n] have "2 ^ nat (bitlen n - 1) \<le> n" by simp
  then have "(of_int (2 ^ nat (bitlen n - 1)) :: rat) \<le> of_int n" by (rule iffD2 [OF of_int_le_iff])
  then have "(2::rat) ^ nat (bitlen n - 1) \<le> of_int n" by simp
  moreover have "(2::rat) powi (bitlen n - 1) = 2 ^ nat (bitlen n - 1)"
    using b by (simp add: power_int_def)
  ultimately show ?thesis by simp
qed

lemma bitlen_upper: "0 \<le> n \<Longrightarrow> of_int n + 1 \<le> (2::rat) powi (bitlen n)"
proof -
  assume n: "0 \<le> n"
  show ?thesis
  proof (cases "n = 0")
    case True then show ?thesis by simp
  next
    case False
    with n have p: "0 < n" by simp
    from bitlen_bounds [OF p] have "n + 1 \<le> 2 ^ nat (bitlen n)" by simp
    then have "(of_int (n + 1) :: rat) \<le> of_int (2 ^ nat (bitlen n))" by (rule iffD2 [OF of_int_le_iff])
    then have "of_int n + 1 \<le> (2::rat) ^ nat (bitlen n)" by simp
    moreover have "(2::rat) powi (bitlen n) = 2 ^ nat (bitlen n)"
      using bitlen_nonneg [of n] by (simp add: power_int_def)
    ultimately show ?thesis by simp
  qed
qed

lemma expo_bounds:
  assumes "q \<noteq> 0"
  shows "2 powi expo q \<le> \<bar>q\<bar>" and "\<bar>q\<bar> < 2 powi (expo q + 1)"
proof -
  have "2 powi expo q \<le> \<bar>q\<bar> \<and> \<bar>q\<bar> < 2 powi (expo q + 1)"
  proof (cases "1 \<le> \<bar>q\<bar>")
    case True
    define n where "n = \<lfloor>\<bar>q\<bar>\<rfloor>"
    have n: "0 < n" using True by (simp add: n_def)
    have e: "expo q = bitlen n - 1" using True by (simp add: expo_def n_def)
    have "of_int n \<le> \<bar>q\<bar>" "\<bar>q\<bar> < of_int n + 1" unfolding n_def by linarith+
    with bitlen_lower [OF n] bitlen_upper [of n] n show ?thesis
      unfolding e by auto
  next
    case False
    define t where "t = 1 / \<bar>q\<bar>"
    define m where "m = \<lceil>t\<rceil> - 1"
    have q: "0 < \<bar>q\<bar>" "\<bar>q\<bar> < 1" using assms False by auto
    then have t: "1 < t" by (simp add: t_def)
    then have m: "0 < m" unfolding m_def by linarith
    have e: "expo q = - bitlen m" using False by (simp add: expo_def m_def t_def)
    have mt: "of_int m < t" "t \<le> of_int m + 1" unfolding m_def by linarith+
    have lo: "2 powi (bitlen m - 1) < t" using bitlen_lower [OF m] mt by simp
    have hi: "t \<le> 2 powi (bitlen m)" using bitlen_upper [of m] m mt by simp
    have qt: "\<bar>q\<bar> = 1 / t" by (simp add: t_def)
    have p1: "(2::rat) powi (- bitlen m) = 1 / 2 powi bitlen m"
      by (simp add: power_int_minus field_simps)
    have p2: "(2::rat) powi (- bitlen m + 1) = 1 / 2 powi (bitlen m - 1)"
      using power_int_minus [of "2::rat" "bitlen m - 1"] by (simp add: field_simps)
    have pos: "(0::rat) < 2 powi (bitlen m - 1)" "(0::rat) < 2 powi (bitlen m)" by simp_all
    have "1 / 2 powi bitlen m \<le> 1 / t" using hi t by (simp add: frac_le)
    moreover have "1 / t < 1 / 2 powi (bitlen m - 1)" using lo pos t by (simp add: frac_less2)
    ultimately show ?thesis unfolding e qt p1 p2 by simp
  qed
  then show "2 powi expo q \<le> \<bar>q\<bar>" and "\<bar>q\<bar> < 2 powi (expo q + 1)" by simp_all
qed


lemma expo_zero: "expo 0 = 0"
  by (simp add: expo_def bitlen_eq_zero_iff)

lemma expo_less: "q \<noteq> 0 \<Longrightarrow> \<bar>q\<bar> < 2 powi j \<Longrightarrow> expo q < j"
proof (rule ccontr)
  assume q: "q \<noteq> 0" and lt: "\<bar>q\<bar> < 2 powi j" and "\<not> expo q < j"
  then have "j \<le> expo q" by simp
  then have "(2::rat) powi j \<le> 2 powi expo q" by (intro power_int_increasing) simp_all
  with expo_bounds(1) [OF q] lt show False by simp
qed

lemma expo_le: "q \<noteq> 0 \<Longrightarrow> \<bar>q\<bar> \<le> 2 powi j \<Longrightarrow> expo q \<le> j"
proof (rule ccontr)
  assume q: "q \<noteq> 0" and le: "\<bar>q\<bar> \<le> 2 powi j" and "\<not> expo q \<le> j"
  then have "j < expo q" by simp
  then have "(2::rat) powi j < 2 powi expo q" by (intro power_int_strict_increasing) simp_all
  with expo_bounds(1) [OF q] le show False by simp
qed

lemma expo_ge: "2 powi j \<le> \<bar>q\<bar> \<Longrightarrow> j \<le> expo q"
proof (rule ccontr)
  assume le: "2 powi j \<le> \<bar>q\<bar>" and "\<not> j \<le> expo q"
  then have "expo q + 1 \<le> j" by simp
  then have "(2::rat) powi (expo q + 1) \<le> 2 powi j" by (intro power_int_increasing) simp_all
  moreover have "(0::rat) < 2 powi j" by simp
  then have "0 < \<bar>q\<bar>" using le by (rule less_le_trans)
  then have "q \<noteq> 0" by simp
  ultimately show False using expo_bounds(2) [of q] le by simp
qed

lemma overflows_iff: "overflows r \<longleftrightarrow> 2 ^ 1024 \<le> \<bar>r\<bar>"
proof (cases "r = 0")
  case True
  then show ?thesis by (simp add: overflows_def expo_zero)
next
  case False
  have p: "(2::rat) ^ 1024 = 2 powi 1024" by simp
  show ?thesis
  proof
    assume "overflows r"
    then have "(2::rat) powi 1024 \<le> 2 powi expo r"
      unfolding overflows_def by (intro power_int_increasing) simp_all
    with expo_bounds(1) [OF False] show "2 ^ 1024 \<le> \<bar>r\<bar>" unfolding p by simp
  next
    assume "2 ^ 1024 \<le> \<bar>r\<bar>"
    then have "2 powi 1024 \<le> \<bar>r\<bar>" unfolding p .
    then show "overflows r" unfolding overflows_def by (rule expo_ge)
  qed
qed

lemma rne_of_int: "rne (of_int k) = k"
  by (simp add: rne_def)

lemma rne_le: "x \<le> of_int k \<Longrightarrow> rne x \<le> k"
proof -
  assume le: "x \<le> of_int k"
  show ?thesis
  proof (cases "x = of_int k")
    case True
    then show ?thesis by (simp add: rne_of_int)
  next
    case False
    with le have "x < of_int k" by simp
    then have "\<lfloor>x\<rfloor> < k" by (simp add: floor_less_iff)
    moreover have "rne x \<le> \<lfloor>x\<rfloor> + 1" by (simp add: rne_def Let_def)
    ultimately show ?thesis by simp
  qed
qed

lemma rne_ge: "of_int k \<le> x \<Longrightarrow> k \<le> rne x"
proof -
  assume "of_int k \<le> x"
  then have "k \<le> \<lfloor>x\<rfloor>" by (simp add: le_floor_iff)
  moreover have "\<lfloor>x\<rfloor> \<le> rne x" by (simp add: rne_def Let_def)
  ultimately show ?thesis by simp
qed

lemma ulp_pos: "0 < ulp q"
  by (simp add: ulp_def)

lemma fl_le: "q \<le> of_int k * ulp q \<Longrightarrow> fl q \<le> of_int k * ulp q"
proof -
  assume "q \<le> of_int k * ulp q"
  then have "q / ulp q \<le> of_int k" using ulp_pos [of q] by (simp add: pos_divide_le_eq)
  then have "rne (q / ulp q) \<le> k" by (rule rne_le)
  then have "(of_int (rne (q / ulp q)) :: rat) \<le> of_int k" by simp
  then show ?thesis unfolding fl_def using ulp_pos [of q] by (intro mult_right_mono) simp_all
qed

lemma fl_ge: "of_int k * ulp q \<le> q \<Longrightarrow> of_int k * ulp q \<le> fl q"
proof -
  assume "of_int k * ulp q \<le> q"
  then have "of_int k \<le> q / ulp q" using ulp_pos [of q] by (simp add: pos_le_divide_eq)
  then have "k \<le> rne (q / ulp q)" by (rule rne_ge)
  then have "(of_int k :: rat) \<le> of_int (rne (q / ulp q))" by simp
  then show ?thesis unfolding fl_def using ulp_pos [of q] by (intro mult_right_mono) simp_all
qed

lemma fl_exact: "q = of_int k * ulp q \<Longrightarrow> fl q = q"
  using fl_le [of q k] fl_ge [of k q] by simp

lemma fl_nonneg: "0 \<le> q \<Longrightarrow> 0 \<le> fl q"
  using fl_ge [of 0 q] by simp

lemma fl_nonpos: "q \<le> 0 \<Longrightarrow> fl q \<le> 0"
  using fl_le [of q 0] by simp

lemma pow2_multiple: "u \<le> j \<Longrightarrow> (2::rat) powi j = of_int (2 ^ nat (j - u)) * 2 powi u"
proof -
  assume "u \<le> j"
  then have "(2::rat) powi (j - u) = 2 ^ nat (j - u)" by (simp add: power_int_def)
  moreover have "(2::rat) powi j = 2 powi (j - u) * 2 powi u"
    using power_int_add [of "2::rat" "j - u" u] by simp
  ultimately show ?thesis by simp
qed

lemma fl_le_pow2:
  assumes "0 \<le> q" and "q \<le> 2 powi j" and "- 1074 \<le> j"
  shows "fl q \<le> 2 powi j"
proof (cases "q = 0")
  case True
  have "(0::rat) < 2 powi j" by simp
  moreover have "fl q \<le> 0" using fl_nonpos [of 0] True by simp
  ultimately show ?thesis by linarith
next
  case False
  then have "expo q \<le> j" using assms by (intro expo_le) simp_all
  then have "max (expo q) (- 1022) - 52 \<le> j" using assms(3) by simp
  from pow2_multiple [OF this]
  have m: "2 powi j = of_int (2 ^ nat (j - (max (expo q) (- 1022) - 52))) * ulp q"
    by (simp add: ulp_def)
  from assms(2) show ?thesis unfolding m by (rule fl_le)
qed

lemma fl_ge_pow2:
  assumes "2 powi j \<le> q" and "- 1022 \<le> j"
  shows "2 powi j \<le> fl q"
proof -
  have "(0::rat) < 2 powi j" by simp
  then have q: "0 < q" using assms(1) by (rule less_le_trans)
  then have a: "\<bar>q\<bar> = q" by simp
  have e: "j \<le> expo q" using assms(1) a expo_ge [of j q] by simp
  then have u: "max (expo q) (- 1022) - 52 = expo q - 52" using assms(2) by simp
  have m: "2 powi expo q = of_int (2 ^ nat (expo q - (expo q - 52))) * ulp q"
    unfolding ulp_def u by (rule pow2_multiple) simp
  have "2 powi expo q \<le> q" using expo_bounds(1) [of q] q by simp
  then have "2 powi expo q \<le> fl q" unfolding m by (rule fl_ge)
  moreover have "(2::rat) powi j \<le> 2 powi expo q" using e by (intro power_int_increasing) simp_all
  ultimately show ?thesis by simp
qed

lemma fl_of_int:
  assumes "0 < n" and "n \<le> 2 ^ 53"
  shows "fl (of_int n) = of_int n"
proof (cases "n = 2 ^ 53")
  case True
  have "fl 9007199254740992 = 9007199254740992" by code_simp
  then show ?thesis using True by simp
next
  case False
  with assms have lt: "n < 2 ^ 53" by simp
  have nz: "(of_int n :: rat) \<noteq> 0" using assms(1) by simp
  have "(of_int n :: rat) < of_int (2 ^ 53)" using lt by (rule iffD2 [OF of_int_less_iff])
  then have "\<bar>of_int n :: rat\<bar> < 2 powi 53" using assms(1) by simp
  then have e: "expo (of_int n) < 53" using nz by (intro expo_less)
  have "(2::rat) powi 0 \<le> \<bar>of_int n\<bar>" using assms(1) by simp
  then have e0: "0 \<le> expo (of_int n)" by (rule expo_ge)
  define u where "u = max (expo (of_int n)) (- 1022) - 52"
  have u: "u \<le> 0" using e e0 by (simp add: u_def)
  have "(2::rat) powi 0 = of_int (2 ^ nat (0 - u)) * 2 powi u" using u by (rule pow2_multiple)
  then have "(of_int n :: rat) = of_int n * (of_int (2 ^ nat (0 - u)) * 2 powi u)" by simp
  then have "(of_int n :: rat) = of_int (n * 2 ^ nat (0 - u)) * ulp (of_int n)"
    by (simp add: ulp_def u_def)
  then show ?thesis by (rule fl_exact)
qed

lemma fl_one: "fl 1 = 1"
  using fl_of_int [of 1] by simp

section \<open>Evaluation rules\<close>

lemma bnd_Inr: "bnd (Inr x) f = f x"
  by (simp add: bnd_def)

lemma bnd_Inl: "bnd (Inl e) f = Inl e"
  by (simp add: bnd_def)

lemma scaled_eval:
  "long_as_double a = Inr x \<Longrightarrow> float_mul x r = Some p \<Longrightarrow> trunc p = n \<Longrightarrow> scaled a r = Inr n"
  by (auto simp add: scaled_def int_mul_float_def int_of_float_def bnd_Inr)

lemma new_size_eval:
  "ratio w h mx mn = Inr r \<Longrightarrow> scaled w r = Inr nw \<Longrightarrow> scaled h r = Inr nh \<Longrightarrow>
   new_size w h mx mn = Inr (nw, nh)"
  by (simp add: new_size_def bnd_Inr)

section \<open>Quotients around 1 and products by 1\<close>

lemma not_overflows: "\<bar>r\<bar> < 2 ^ 1024 \<Longrightarrow> \<not> overflows r"
  by (simp add: overflows_iff)

lemma finite_or_raise_small: "0 \<le> r \<Longrightarrow> r \<le> 2 powi 53 \<Longrightarrow> finite_or_raise r = Inr r"
proof -
  assume "0 \<le> r" "r \<le> 2 powi 53"
  moreover have "(2::rat) powi 53 < 2 ^ 1024" by simp
  ultimately have "\<bar>r\<bar> < 2 ^ 1024" by linarith
  then show ?thesis by (simp add: finite_or_raise_def not_overflows)
qed

lemma true_div_self: "0 < a \<Longrightarrow> true_div a a = Inr 1"
  using finite_or_raise_small [of 1] by (simp add: true_div_def fl_one)

lemma true_div_ge_one:
  assumes "0 < b" and "b \<le> a" and "a \<le> 2 ^ 53"
  shows "\<exists>r. true_div a b = Inr r \<and> 1 \<le> r"
proof -
  define q :: rat where "q = of_int a / of_int b"
  have b: "(1::rat) \<le> of_int b" using assms(1) by simp
  have "(of_int b :: rat) \<le> of_int a" using assms(2) by simp
  then have q1: "1 \<le> q" using assms(1) by (simp add: q_def pos_le_divide_eq)
  have "(of_int a :: rat) \<le> of_int (2 ^ 53)" using assms(3) by (rule iffD2 [OF of_int_le_iff])
  then have a: "(of_int a :: rat) \<le> 2 powi 53" by simp
  have "q \<le> of_int a / 1" unfolding q_def using b assms(1,2) by (intro divide_left_mono) simp_all
  then have q2: "q \<le> 2 powi 53" using a by simp
  have "2 powi 0 \<le> fl q" using q1 by (intro fl_ge_pow2) simp_all
  then have f1: "1 \<le> fl q" by simp
  have f2: "fl q \<le> 2 powi 53" using q1 q2 by (intro fl_le_pow2) simp_all
  have "finite_or_raise (fl q) = Inr (fl q)" using f1 f2 by (intro finite_or_raise_small) simp_all
  then show ?thesis using assms(1) f1 by (simp add: true_div_def q_def)
qed

lemma true_div_le_one:
  assumes "0 < a" and "a \<le> b"
  shows "\<exists>r. true_div a b = Inr r \<and> r \<le> 1"
proof -
  define q :: rat where "q = of_int a / of_int b"
  have b: "0 < b" using assms by simp
  have "(of_int a :: rat) \<le> of_int b" using assms(2) by simp
  then have q1: "q \<le> 1" using b by (simp add: q_def pos_divide_le_eq)
  have q0: "0 \<le> q" using assms(1) b by (simp add: q_def)
  have "fl q \<le> 2 powi 0" using q0 q1 by (intro fl_le_pow2) simp_all
  then have f1: "fl q \<le> 1" by simp
  have f0: "0 \<le> fl q" using q0 by (rule fl_nonneg)
  have "finite_or_raise (fl q) = Inr (fl q)" using f0 f1 by (intro finite_or_raise_small) simp_all
  then show ?thesis using b f1 by (simp add: true_div_def q_def)
qed

lemma scaled_one:
  assumes "0 < n" and "n \<le> 2 ^ 53"
  shows "scaled n 1 = Inr n"
proof -
  have "(of_int n :: rat) \<le> of_int (2 ^ 53)" using assms(2) by (rule iffD2 [OF of_int_le_iff])
  then have "(of_int n :: rat) \<le> 2 powi 53" by simp
  moreover have "(0 :: rat) \<le> of_int n" using assms(1) by simp
  ultimately have r: "finite_or_raise (of_int n) = Inr (of_int n)" by (rule finite_or_raise_small [rotated])
  then have "\<not> overflows (of_int n)" by (simp add: finite_or_raise_def split: if_splits)
  then show ?thesis using r assms(1)
    by (simp add: scaled_def int_mul_float_def long_as_double_def float_mul_def finite_or_inf_def
                  int_of_float_def trunc_def bnd_Inr fl_of_int [OF assms])
qed

text \<open>
  C8. An image whose longer edge already equals \<open>max_size\<close>, or whose shorter edge
  already equals \<open>min_size\<close>, keeps its exact size: the controlling quotient is the
  double 1, the other quotient lies on the far side of 1, so the ratio is 1, and an int
  of at most 53 bits times 1 is itself. Widths and heights are positive and at most
  \<open>2 ^ 53\<close> (the library holds them in C ints).
\<close>

theorem new_size_idempotent:
  assumes "0 < w" and "w \<le> 2 ^ 53" and "0 < h" and "h \<le> 2 ^ 53"
  shows "new_size w h (Some (max w h)) min_size = Inr (w, h) \<and>
         new_size w h None (Some (min w h)) = Inr (w, h)"
proof -
  have mx: "ratio w h (Some (max w h)) min_size = Inr 1"
  proof (cases "h \<le> w")
    case True
    then have m: "max w h = w" by simp
    obtain b where "true_div w h = Inr b" "1 \<le> b"
      using true_div_ge_one [OF assms(3) True assms(2)] by blast
    then show ?thesis unfolding m using true_div_self [OF assms(1)]
      by (simp add: ratio_def bnd_Inr py_min_def)
  next
    case False
    then have m: "max w h = h" and le: "w \<le> h" by simp_all
    obtain a where "true_div h w = Inr a" "1 \<le> a"
      using true_div_ge_one [OF assms(1) le assms(4)] by blast
    then show ?thesis unfolding m using true_div_self [OF assms(3)]
      by (simp add: ratio_def bnd_Inr py_min_def)
  qed
  have mn: "ratio w h None (Some (min w h)) = Inr 1"
  proof (cases "w \<le> h")
    case True
    then have m: "min w h = w" by simp
    obtain b where "true_div w h = Inr b" "b \<le> 1"
      using true_div_le_one [OF assms(1) True] by blast
    then show ?thesis unfolding m using true_div_self [OF assms(1)]
      by (simp add: ratio_def bnd_Inr py_max_def)
  next
    case False
    then have m: "min w h = h" and le: "h \<le> w" by simp_all
    obtain a where "true_div h w = Inr a" "a \<le> 1"
      using true_div_le_one [OF assms(3) le] by blast
    then show ?thesis unfolding m using true_div_self [OF assms(3)]
      by (simp add: ratio_def bnd_Inr py_max_def)
  qed
  have sw: "scaled w 1 = Inr w" using assms(1,2) by (rule scaled_one)
  have sh: "scaled h 1 = Inr h" using assms(3,4) by (rule scaled_one)
  show ?thesis using new_size_eval [OF mx sw sh] new_size_eval [OF mn sw sh] by simp
qed

theorem new_size_idempotent_witness:
  "new_size 800 400 (Some 800) None = Inr (800, 400) \<and>
   new_size 800 400 None (Some 400) = Inr (800, 400)"
  using new_size_idempotent [of 800 400 None] by simp

section \<open>The longer and the shorter edge\<close>


text \<open>
  C1. The longer edge of the output is meant to be \<open>max_size\<close>. For a 299 by 299 image and
  \<open>max_size = 224\<close> the quotient \<open>224 / 299\<close> is rounded down to a double, the product
  \<open>299 * ratio\<close> is the double just below 224, and \<open>int()\<close> truncates it to 223: the
  output is 223 by 223.
\<close>

theorem max_size_longer_edge_223:
  "new_size 299 299 (Some 224) None = Inr (223, 223)"
proof (rule new_size_eval)
  show "ratio 299 299 (Some 224) None = Inr (1686967084499985 / 2251799813685248)"
    by code_simp
  show s: "scaled 299 (1686967084499985 / 2251799813685248) = Inr 223"
    by (rule scaled_eval [where x = 299 and p = "7881299347898367 / 35184372088832"];
        code_simp)
  show "scaled 299 (1686967084499985 / 2251799813685248) = Inr 223"
    by (rule s)
qed

text \<open>
  C2. The shorter edge of the output is meant to be \<open>min_size\<close>. For a 299 by 400 image
  and \<open>min_size = 224\<close> the same rounding gives 223 by 299. The example of the
  specification, 300 by 600 with \<open>min_size = 500\<close>, does give 500 by 1000.
\<close>

theorem min_size_shorter_edge_223:
  "new_size 299 400 None (Some 224) = Inr (223, 299) \<and>
   new_size 300 600 None (Some 500) = Inr (500, 1000)"
proof
  show "new_size 299 400 None (Some 224) = Inr (223, 299)"
  proof (rule new_size_eval)
    show "ratio 299 400 None (Some 224) = Inr (1686967084499985 / 2251799813685248)"
      by code_simp
    show "scaled 299 (1686967084499985 / 2251799813685248) = Inr 223"
      by (rule scaled_eval [where x = 299 and p = "7881299347898367 / 35184372088832"];
          code_simp)
    show "scaled 400 (1686967084499985 / 2251799813685248) = Inr 299"
      by (rule scaled_eval [where x = 400 and p = "5271772139062453 / 17592186044416"];
          code_simp)
  qed
  show "new_size 300 600 None (Some 500) = Inr (500, 1000)"
  proof (rule new_size_eval)
    show "ratio 300 600 None (Some 500) = Inr (7505999378950827 / 4503599627370496)"
      by code_simp
    show "scaled 300 (7505999378950827 / 4503599627370496) = Inr 500"
      by (rule scaled_eval [where x = 300 and p = 500]; code_simp)
    show "scaled 600 (7505999378950827 / 4503599627370496) = Inr 1000"
      by (rule scaled_eval [where x = 600 and p = 1000]; code_simp)
  qed
qed

section \<open>Truncation\<close>







section \<open>Both bounds, or none\<close>




section \<open>What \<^verbatim>\<open>resize_image\<close> saves\<close>

lemma resize_image_Inr:
  assumes "resize_image opened output_path max_size min_size keep_format = Inr s"
  shows "\<exists>img0 sz resized_img.
           opened = Inr img0 \<and>
           new_size (width img0) (height img0) max_size min_size = Inr sz \<and>
           resize (convert img0 ''RGB'') sz = Inr resized_img \<and>
           s = save_resized resized_img (original_format img0) output_path keep_format"
  using assms
  by (auto simp add: resize_image_def bnd_def convert_def split: sum.splits)


lemma choose_format_table:
  "choose_format keep_format orig =
     (if keep_format \<and> orig = Some ''JPEG'' then (''jpg'', ''JPEG'')
      else if keep_format \<and> orig = Some ''PNG'' then (''png'', ''PNG'')
      else if keep_format \<and> orig = Some ''BMP'' then (''bmp'', ''BMP'')
      else if keep_format \<and> orig = Some ''GIF'' then (''gif'', ''GIF'')
      else (''png'', ''PNG''))"
proof (cases orig)
  case None
  then show ?thesis by (simp add: choose_format_def)
next
  case (Some f)
  then show ?thesis by (simp add: choose_format_def valid_formats_def)
qed

lemma choose_format_extension:
  "fst (choose_format keep_format orig) \<in> {''jpg'', ''png'', ''bmp'', ''gif''}"
  by (simp add: choose_format_table)

lemma original_format_convert: "original_format (convert img m) = None"
  by (simp add: original_format_def convert_def)

text \<open>
  C4. Whenever \<^verbatim>\<open>resize_image\<close> saves a file, the extension it appends to the stem of
  \<open>output_path\<close> and the \<open>format\<close> argument of \<open>save\<close> are those of the format tag read at
  line 10 from the image as opened, when \<open>keep_format\<close> is set and that tag is JPEG, PNG,
  BMP or GIF; in every other case they are \<open>png\<close> and \<open>PNG\<close>. The tag has to be read
  before the conversion: the converted image has none.
\<close>

theorem format_policy:
  assumes "resize_image (Inr img) output_path max_size min_size keep_format = Inr s"
  shows "(sv_path s, map_of (sv_params s) ''format'') =
           (if keep_format \<and> original_format img = Some ''JPEG''
              then (fst (splitext output_path) @ ''.jpg'', Some (Str ''JPEG''))
            else if keep_format \<and> original_format img = Some ''PNG''
              then (fst (splitext output_path) @ ''.png'', Some (Str ''PNG''))
            else if keep_format \<and> original_format img = Some ''BMP''
              then (fst (splitext output_path) @ ''.bmp'', Some (Str ''BMP''))
            else if keep_format \<and> original_format img = Some ''GIF''
              then (fst (splitext output_path) @ ''.gif'', Some (Str ''GIF''))
            else (fst (splitext output_path) @ ''.png'', Some (Str ''PNG''))) \<and>
         original_format (convert img ''RGB'') = None"
proof -
  from resize_image_Inr [OF assms] obtain resized_img where
    s: "s = save_resized resized_img (original_format img) output_path keep_format"
    by auto
  show ?thesis
    unfolding s save_resized_def choose_format_table [of keep_format "original_format img"]
    by (simp add: save_params_def original_format_convert)
qed

lemma new_size_4000_2000: "new_size 4000 2000 (Some 800) None = Inr (800, 400)"
proof (rule new_size_eval)
  show "ratio 4000 2000 (Some 800) None = Inr (3602879701896397 / 18014398509481984)"
    by code_simp
  show "scaled 4000 (3602879701896397 / 18014398509481984) = Inr 800"
    by (rule scaled_eval [where x = 4000 and p = 800]; code_simp)
  show "scaled 2000 (3602879701896397 / 18014398509481984) = Inr 400"
    by (rule scaled_eval [where x = 2000 and p = 400]; code_simp)
qed

lemma example_original_format: "original_format example_image = Some ''JPEG''"
proof -
  have "upper ''jpeg'' = ''JPEG''"
    by code_simp
  then show ?thesis
    by (simp add: original_format_def example_image_def)
qed

lemma example_stem: "fst (splitext ''OUT/a/b/c.jpeg'') = ''OUT/a/b/c''"
  by code_simp

lemma resize_image_example:
  "resize_image (Inr example_image) ''OUT/a/b/c.jpeg'' (Some 800) None keep
   = Inr \<lparr>sv_path = (if keep then ''OUT/a/b/c.jpg'' else ''OUT/a/b/c.png''),
          sv_params = (if keep then [(''format'', Str ''JPEG''), (''quality'', Num 95)]
                       else [(''format'', Str ''PNG''), (''optimize'', Flag True),
                             (''compress_level'', Num 9)]),
          sv_image = \<lparr>width = 800, height = 400, mode = ''RGB'', format = None,
                      info = Map.empty\<rparr>\<rparr>"
proof -
  have "new_size (width example_image) (height example_image) (Some 800) None = Inr (800, 400)"
    by (simp add: example_image_def new_size_4000_2000)
  then show ?thesis
    by (simp add: resize_image_def bnd_Inr convert_def resize_def save_resized_def
                  example_original_format example_stem choose_format_table save_params_def)
qed

theorem format_policy_witness:
  "\<exists>s t. resize_image (Inr example_image) ''OUT/a/b/c.jpeg'' (Some 800) None True = Inr s \<and>
     sv_path s = ''OUT/a/b/c.jpg'' \<and> map_of (sv_params s) ''format'' = Some (Str ''JPEG'') \<and>
     resize_image (Inr example_image) ''OUT/a/b/c.jpeg'' (Some 800) None False = Inr t \<and>
     sv_path t = ''OUT/a/b/c.png'' \<and> map_of (sv_params t) ''format'' = Some (Str ''PNG'')"
proof -
  obtain s where s: "resize_image (Inr example_image) ''OUT/a/b/c.jpeg'' (Some 800) None True = Inr s"
    using resize_image_example [of True] by blast
  obtain t where t: "resize_image (Inr example_image) ''OUT/a/b/c.jpeg'' (Some 800) None False = Inr t"
    using resize_image_example [of False] by blast
  from format_policy [OF s]
  have a: "sv_path s = ''OUT/a/b/c.jpg'' \<and> map_of (sv_params s) ''format'' = Some (Str ''JPEG'')"
    by (simp add: example_original_format example_stem)
  from format_policy [OF t]
  have b: "sv_path t = ''OUT/a/b/c.png'' \<and> map_of (sv_params t) ''format'' = Some (Str ''PNG'')"
    by (simp add: example_stem)
  from s t a b show ?thesis
    by blast
qed





section \<open>The validation of the command line\<close>

lemma main_neither:
  "main cwd opener entries input_directory output_directory None None keep_format
     = UsageError ''Either --max_size or --min_size must be specified.''"
  by (simp add: main_def truthy_def)

lemma main_both_nonzero:
  "M \<noteq> 0 \<Longrightarrow> m \<noteq> 0 \<Longrightarrow>
   main cwd opener entries input_directory output_directory (Some M) (Some m) keep_format
     = UsageError ''Specify either --max_size or --min_size, not both.''"
  by (simp add: main_def truthy_def)

lemma new_size_zero_bound: "new_size 640 480 (Some 0) (Some 5) = Inr (0, 0)"
proof (rule new_size_eval)
  show "ratio 640 480 (Some 0) (Some 5) = Inr 0"
    by code_simp
  show "scaled 640 0 = Inr 0"
    by (rule scaled_eval [where x = 640 and p = 0]; code_simp)
  show "scaled 480 0 = Inr 0"
    by (rule scaled_eval [where x = 480 and p = 0]; code_simp)
qed

text \<open>
  C5, at \<^verbatim>\<open>--max_size 0 --min_size 5\<close>. Both options are given, yet neither test of
  lines 87 to 91 fires, because \<open>0\<close> is false: the program goes on to
  \<^verbatim>\<open>resize_dataset\<close> with \<open>max_size = 0\<close> and \<open>min_size = 5\<close>. On an input directory
  without images it ends normally; on a 640 by 480 image the new size is \<open>(0, 0)\<close>.
\<close>

theorem main_zero_max_size_not_rejected:
  "main cwd opener entries input_directory output_directory (Some 0) (Some 5) keep_format
     = Ran (resize_dataset cwd opener entries input_directory output_directory
              (Some 0) (Some 5) keep_format) \<and>
   main cwd opener [] input_directory output_directory (Some 0) (Some 5) keep_format
     = Ran ([], None) \<and>
   new_size 640 480 (Some 0) (Some 5) = Inr (0, 0)"
  by (simp add: main_def truthy_def resize_dataset_def all_image_paths_def new_size_zero_bound)

section \<open>Splitting and joining at slashes\<close>

lemma startswith_slash: "startswith s ''/'' \<longleftrightarrow> s \<noteq> [] \<and> hd s = CHR ''/''"
  by (cases s) (simp_all add: startswith_def)

lemma endswith_slash: "endswith s ''/'' \<longleftrightarrow> s \<noteq> [] \<and> last s = CHR ''/''"
proof (cases s rule: rev_cases)
  case Nil
  then show ?thesis by (simp add: endswith_def)
next
  case (snoc ys y)
  then show ?thesis by (simp add: endswith_def)
qed

lemma valid_name_hd: "valid_name n \<Longrightarrow> hd n \<noteq> CHR ''/''"
  by (cases n) (auto simp add: valid_name_def)

lemma valid_name_last: "valid_name n \<Longrightarrow> last n \<noteq> CHR ''/''"
  by (cases n rule: rev_cases) (auto simp add: valid_name_def)

lemma valid_name_nonempty: "valid_name n \<Longrightarrow> n \<noteq> []"
  by (simp add: valid_name_def)

lemma join_valid:
  "valid_name n \<Longrightarrow> join a n = (if a = [] \<or> last a = CHR ''/'' then a @ n else a @ ''/'' @ n)"
  using valid_name_hd [of n] by (auto simp add: join_def startswith_slash endswith_slash)

lemma str_split_nonempty: "str_split s \<noteq> []"
  by (induction s) (auto split: list.splits)

lemma str_split_nosep: "CHR ''/'' \<notin> set t \<Longrightarrow> str_split t = [t]"
  by (induction t) auto

lemma str_split_append:
  "CHR ''/'' \<notin> set t \<Longrightarrow> str_split (s @ ''/'' @ t) = str_split s @ [t]"
proof (induction s)
  case Nil
  then show ?case by (simp add: str_split_nosep)
next
  case (Cons c s)
  then show ?case using str_split_nonempty [of s]
    by (cases "str_split s") auto
qed

lemma str_split_prefix:
  "CHR ''/'' \<notin> set x \<Longrightarrow> str_split (x @ ''/'' @ s) = x # str_split s"
  by (induction x) auto

lemma str_split_slash_free: "x \<in> set (str_split s) \<Longrightarrow> CHR ''/'' \<notin> set x"
proof (induction s arbitrary: x)
  case Nil
  then show ?case by simp
next
  case (Cons c s)
  then show ?case using str_split_nonempty [of s]
    by (cases "str_split s") (auto split: if_splits)
qed

lemma path_list_slash: "path_list (CHR ''/'' # s) = path_list s"
  by (simp add: path_list_def)

lemma path_list_slashes: "path_list (replicate k CHR ''/'' @ s) = path_list s"
  by (induction k) (simp_all add: path_list_slash)

lemma sep_join_Cons: "ns \<noteq> [] \<Longrightarrow> sep_join (n # ns) = n @ ''/'' @ sep_join ns"
  by (cases ns) simp_all

lemma path_list_sep_join:
  "\<forall>x \<in> set cs. x \<noteq> [] \<and> CHR ''/'' \<notin> set x \<Longrightarrow> path_list (sep_join cs) = cs"
proof (induction cs rule: sep_join.induct)
  case 1
  then show ?case by (simp add: path_list_def)
next
  case (2 x)
  then show ?case by (simp add: path_list_def str_split_nosep)
next
  case (3 x y ys)
  have "str_split (x @ ''/'' @ sep_join (y # ys)) = x # str_split (sep_join (y # ys))"
    using 3(2) by (intro str_split_prefix) simp
  then show ?case using 3 by (simp add: path_list_def)
qed

section \<open>Normalisation\<close>

lemma norm_step_valid: "valid_name n \<Longrightarrow> norm_step k cs n = cs @ [n]"
  by (simp add: norm_step_def valid_name_def)

lemma norm_step_empty: "norm_step k cs [] = cs"
  by (simp add: norm_step_def)

lemma norm_step_cases:
  "norm_step k cs c = cs \<or> (norm_step k cs c = cs @ [c] \<and> c \<noteq> []) \<or>
   norm_step k cs c = butlast cs"
  unfolding norm_step_def by (cases "c = []") simp_all

lemma norm_step_invariant:
  assumes "\<forall>x \<in> set cs. x \<noteq> [] \<and> CHR ''/'' \<notin> set x" and "CHR ''/'' \<notin> set c"
  shows "\<forall>x \<in> set (norm_step k cs c). x \<noteq> [] \<and> CHR ''/'' \<notin> set x"
proof -
  consider "norm_step k cs c = cs" | "norm_step k cs c = cs @ [c]" and "c \<noteq> []"
    | "norm_step k cs c = butlast cs"
    using norm_step_cases [of k cs c] by blast
  then show ?thesis
  proof cases
    case 1
    then show ?thesis using assms(1) by simp
  next
    case 2
    then show ?thesis using assms by simp
  next
    case 3
    then show ?thesis using assms(1) by (auto dest: in_set_butlastD)
  qed
qed

lemma foldl_norm_step_invariant:
  assumes "\<forall>x \<in> set cs. x \<noteq> [] \<and> CHR ''/'' \<notin> set x" and "\<forall>c \<in> set xs. CHR ''/'' \<notin> set c"
  shows "\<forall>x \<in> set (foldl (norm_step k) cs xs). x \<noteq> [] \<and> CHR ''/'' \<notin> set x"
  using assms
proof (induction xs arbitrary: cs)
  case Nil
  then show ?case by simp
next
  case (Cons c xs)
  have c: "CHR ''/'' \<notin> set c" and r: "\<forall>c \<in> set xs. CHR ''/'' \<notin> set c"
    using Cons.prems(2) by simp_all
  have "\<forall>x \<in> set (norm_step k cs c). x \<noteq> [] \<and> CHR ''/'' \<notin> set x"
    using Cons.prems(1) c by (rule norm_step_invariant)
  then have "\<forall>x \<in> set (foldl (norm_step k) (norm_step k cs c) xs). x \<noteq> [] \<and> CHR ''/'' \<notin> set x"
    using r by (rule Cons.IH)
  then show ?case by (simp only: foldl_Cons)
qed

lemma norm_comps_components: "\<forall>x \<in> set (norm_comps p). x \<noteq> [] \<and> CHR ''/'' \<notin> set x"
  unfolding norm_comps_def
  by (rule foldl_norm_step_invariant) (simp_all add: str_split_slash_free)

lemma path_list_normpath:
  assumes "startswith p ''/''"
  shows "path_list (normpath p) = norm_comps p"
proof -
  have p: "p \<noteq> []" using assms by (simp add: startswith_slash)
  have k: "0 < initial_slashes p" using assms by (simp add: initial_slashes_def)
  then have "replicate (initial_slashes p) CHR ''/'' @ sep_join (norm_comps p) \<noteq> []" by simp
  then have "normpath p = replicate (initial_slashes p) CHR ''/'' @ sep_join (norm_comps p)"
    using p by (simp add: normpath_def Let_def)
  then show ?thesis
    by (simp add: path_list_slashes path_list_sep_join [OF norm_comps_components])
qed

lemma initial_slashes_join:
  assumes "valid_name n"
  shows "initial_slashes (join a n) = initial_slashes a"
proof -
  have n: "n \<noteq> []" "hd n \<noteq> CHR ''/''" using assms valid_name_hd by (simp_all add: valid_name_def)
  then obtain c n' where cn: "n = c # n'" "c \<noteq> CHR ''/''" by (cases n) auto
  consider "a = []" | c1 where "a = [c1]" | c1 c2 where "a = [c1, c2]"
    | c1 c2 c3 r where "a = c1 # c2 # c3 # r"
    by (metis list.exhaust)
  moreover have "join a n = (if a = [] \<or> last a = CHR ''/'' then a @ n else a @ ''/'' @ n)"
    using assms by (rule join_valid)
  ultimately show ?thesis
    using cn by cases (simp_all add: initial_slashes_def startswith_def)
qed

lemma norm_comps_join:
  assumes "valid_name n"
  shows "norm_comps (join a n) = norm_comps a @ [n]"
proof -
  have sf: "CHR ''/'' \<notin> set n" using assms by (simp add: valid_name_def)
  let ?k = "initial_slashes a"
  have "foldl (norm_step ?k) [] (str_split (join a n)) = foldl (norm_step ?k) [] (str_split a) @ [n]"
  proof (cases "a = []")
    case True
    then show ?thesis
      by (simp add: join_valid [OF assms] str_split_nosep [OF sf] norm_step_valid [OF assms]
                    norm_step_empty)
  next
    case False
    show ?thesis
    proof (cases "last a = CHR ''/''")
      case True
      with False obtain a' where a: "a = a' @ ''/''"
        by (metis append_butlast_last_id)
      have "str_split a = str_split a' @ [Nil]"
        unfolding a using str_split_append [of "[]" a'] by simp
      moreover have "str_split (join a n) = str_split a' @ [n]"
        using str_split_append [OF sf, of a'] by (simp add: join_valid [OF assms] a)
      ultimately show ?thesis
        by (simp add: norm_step_valid [OF assms] norm_step_empty)
    next
      case True': False
      then have "str_split (join a n) = str_split a @ [n]"
        using False str_split_append [OF sf, of a] by (simp add: join_valid [OF assms])
      then show ?thesis
        by (simp add: norm_step_valid [OF assms])
    qed
  qed
  then show ?thesis
    by (simp add: norm_comps_def initial_slashes_join [OF assms])
qed

section \<open>Absolute and relative paths\<close>

lemma join_nonempty: "valid_name n \<Longrightarrow> join a n \<noteq> []"
  by (simp add: join_valid valid_name_nonempty)

lemma join_startswith:
  "valid_name n \<Longrightarrow> a \<noteq> [] \<Longrightarrow> startswith (join a n) ''/'' = startswith a ''/''"
  by (simp add: join_valid startswith_slash)

lemma join_last: "valid_name n \<Longrightarrow> last (join a n) = last n"
  by (simp add: join_valid valid_name_nonempty)

lemma join_empty_right: "join a [] = (if a = [] \<or> last a = CHR ''/'' then a else a @ ''/'')"
  by (simp add: join_def startswith_def endswith_slash)

lemma join_assoc:
  assumes "valid_name n" and "\<not> isabs p" and "cwd \<noteq> []"
  shows "join cwd (join p n) = join (join cwd p) n"
proof (cases "p = []")
  case True
  then show ?thesis using assms(3)
    by (simp add: join_valid [OF assms(1)] join_empty_right)
next
  case False
  have h: "hd p \<noteq> CHR ''/''" using assms(2) False by (simp add: isabs_def startswith_slash)
  have j: "join cwd p = (if last cwd = CHR ''/'' then cwd @ p else cwd @ ''/'' @ p)"
    using h False assms(3) by (simp add: join_def startswith_slash endswith_slash)
  have "hd (join p n) \<noteq> CHR ''/''" "join p n \<noteq> []"
    using h False by (auto simp add: join_valid [OF assms(1)])
  then have "join cwd (join p n)
      = (if last cwd = CHR ''/'' then cwd @ join p n else cwd @ ''/'' @ join p n)"
    using assms(3) by (simp add: join_def startswith_slash endswith_slash)
  then show ?thesis
    using False by (simp add: j join_valid [OF assms(1)])
qed

lemma path_list_abspath_join:
  assumes "isabs cwd" and "valid_name n"
  shows "path_list (abspath cwd (join p n)) = path_list (abspath cwd p) @ [n]"
proof -
  have c: "cwd \<noteq> []" "hd cwd = CHR ''/''"
    using assms(1) by (simp_all add: isabs_def startswith_slash)
  show ?thesis
  proof (cases "isabs p")
    case True
    then have p: "p \<noteq> []" by (simp add: isabs_def startswith_slash)
    have "isabs (join p n)"
      using True join_startswith [OF assms(2) p] by (simp add: isabs_def)
    then show ?thesis
      using True by (simp add: abspath_def path_list_normpath norm_comps_join [OF assms(2)]
                               isabs_def)
  next
    case False
    have "\<not> isabs (join p n)"
    proof (cases "p = []")
      case True
      then show ?thesis
        using valid_name_hd [OF assms(2)]
        by (simp add: join_valid [OF assms(2)] isabs_def startswith_slash)
    next
      case f: False
      then show ?thesis
        using False join_startswith [OF assms(2) f] by (simp add: isabs_def)
    qed
    note na = this
    have sw: "startswith (join cwd x) ''/''" if "\<not> isabs x" for x
      using that c by (auto simp add: join_def isabs_def startswith_slash)
    have "path_list (abspath cwd (join p n)) = norm_comps (join cwd (join p n))"
      using na sw [OF na] by (simp add: abspath_def path_list_normpath)
    also have "\<dots> = norm_comps (join cwd p) @ [n]"
      by (simp add: join_assoc [OF assms(2) False c(1)] norm_comps_join [OF assms(2)])
    also have "norm_comps (join cwd p) = path_list (abspath cwd p)"
      using False sw [OF False] by (simp add: abspath_def path_list_normpath)
    finally show ?thesis .
  qed
qed

lemma path_list_abspath_join_all:
  assumes "isabs cwd" and "list_all valid_name ns"
  shows "path_list (abspath cwd (join_all p ns)) = path_list (abspath cwd p) @ ns"
  using assms(2)
proof (induction ns arbitrary: p)
  case Nil
  then show ?case by (simp add: join_all_def)
next
  case (Cons n ns)
  have "path_list (abspath cwd (join_all (join p n) ns)) = path_list (abspath cwd (join p n)) @ ns"
    using Cons by simp
  then show ?case
    using Cons.prems by (simp add: join_all_def path_list_abspath_join [OF assms(1)])
qed

lemma commonprefix_append: "commonprefix xs (xs @ ys) = xs"
proof (induction xs)
  case Nil
  then show ?case by (cases ys) simp_all
next
  case (Cons x xs)
  then show ?case by simp
qed

lemma join_all_sep_join:
  assumes "list_all valid_name (n # ns)"
  shows "join_all n ns = sep_join (n # ns)"
  using assms
proof (induction ns arbitrary: n rule: rev_induct)
  case Nil
  then show ?case by (simp add: join_all_def)
next
  case (snoc m ms)
  have v: "valid_name m" "valid_name n" using snoc.prems by simp_all
  have j: "join_all n ms = sep_join (n # ms)" using snoc by simp
  have l: "last (sep_join (n # ms)) \<noteq> CHR ''/'' \<and> sep_join (n # ms) \<noteq> []"
    using snoc.prems
  proof (induction ms arbitrary: n)
    case Nil
    then show ?case using valid_name_last [of n] by (simp add: valid_name_nonempty)
  next
    case (Cons a as)
    then show ?case by (simp add: valid_name_nonempty)
  qed
  have "sep_join ((n # ms) @ [m]) = sep_join (n # ms) @ ''/'' @ m"
  proof (induction ms arbitrary: n)
    case Nil
    then show ?case by simp
  next
    case (Cons a as)
    then show ?case by simp
  qed
  then show ?case
    using l by (simp add: join_all_def j [unfolded join_all_def] join_valid [OF v(1)])
qed

lemma join_all_nonempty: "list_all valid_name ns \<Longrightarrow> ns \<noteq> [] \<Longrightarrow> join_all p ns \<noteq> []"
  by (induction ns arbitrary: p rule: rev_induct) (simp_all add: join_all_def join_nonempty)

text \<open>
  The path of a file below a directory, relative to that directory, is the names on the
  way down, joined by slashes.
\<close>

lemma relpath_below:
  assumes "isabs cwd" and "list_all valid_name ns" and "ns \<noteq> []"
  shows "relpath cwd (join_all d ns) d = Inr (sep_join ns)"
proof -
  obtain n ms where ns: "ns = n # ms" using assms(3) by (cases ns) auto
  have "join_all (hd ns) (tl ns) = sep_join ns"
    using assms(2) unfolding ns by (simp add: join_all_sep_join)
  then show ?thesis
    using assms(3) join_all_nonempty [OF assms(2,3), of d]
    by (simp add: relpath_def Let_def path_list_abspath_join_all [OF assms(1,2)]
                  commonprefix_append)
qed

section \<open>The extension\<close>

lemma rfind_notin: "c \<notin> set t \<Longrightarrow> rfind t c = - 1"
  by (induction t) (auto simp add: Let_def)

lemma rfind_lower: "- 1 \<le> rfind s c"
  by (induction s) (simp_all add: Let_def)

lemma rfind_upper: "rfind s c < int (length s)"
  by (induction s) (simp_all add: Let_def)

lemma rfind_in: "c \<in> set t \<Longrightarrow> 0 \<le> rfind t c"
  by (induction t) (auto simp add: Let_def)

lemma rfind_append_notin: "c \<notin> set t \<Longrightarrow> rfind (s @ t) c = rfind s c"
  by (induction s) (simp_all add: Let_def rfind_notin)

lemma rfind_append_in: "0 \<le> rfind t c \<Longrightarrow> rfind (s @ t) c = int (length s) + rfind t c"
  by (induction s) (simp_all add: Let_def)

lemma rfind_sep_prefix:
  assumes "pre = [] \<or> last pre = CHR ''/''"
  shows "rfind pre CHR ''/'' = int (length pre) - 1"
proof (cases "pre = []")
  case True
  then show ?thesis by simp
next
  case False
  with assms obtain q where q: "pre = q @ ''/''"
    by (metis append_butlast_last_id)
  have "rfind ''/'' CHR ''/'' = 0" by (simp add: Let_def)
  then show ?thesis unfolding q using rfind_append_in [of "''/''" "CHR ''/''" q] by simp
qed

lemma splitext_below:
  assumes "CHR ''/'' \<notin> set f" and "pre = [] \<or> last pre = CHR ''/''"
  shows "fst (splitext (pre @ f)) = pre @ fst (splitext f)"
proof -
  have sep: "rfind (pre @ f) CHR ''/'' = int (length pre) - 1"
    using assms by (simp add: rfind_append_notin rfind_sep_prefix)
  have sepf: "rfind f CHR ''/'' = - 1"
    using assms(1) by (rule rfind_notin)
  show ?thesis
  proof (cases "CHR ''.'' \<in> set f")
    case True
    define d where "d = rfind f CHR ''.''"
    have d: "0 \<le> d" unfolding d_def using True by (rule rfind_in)
    have dot: "rfind (pre @ f) CHR ''.'' = int (length pre) + d"
      unfolding d_def using d [unfolded d_def] by (rule rfind_append_in)
    have n: "nat (int (length pre) + d) = length pre + nat d" using d by (simp add: nat_add_distrib)
    show ?thesis
      using d by (simp add: splitext_def Let_def sep sepf dot d_def [symmetric] n)
  next
    case False
    have "rfind (pre @ f) CHR ''.'' = rfind pre CHR ''.''"
      using False by (rule rfind_append_notin)
    then have "rfind (pre @ f) CHR ''.'' \<le> int (length pre) - 1"
      using rfind_upper [of pre "CHR ''.''"] by simp
    then show ?thesis
      using rfind_notin [OF False] by (simp add: splitext_def Let_def sep sepf)
  qed
qed

lemma splitext_stem_set: "set (fst (splitext p)) \<subseteq> set p"
  by (auto simp add: splitext_def Let_def dest: in_set_takeD)

lemma new_name_valid:
  assumes "CHR ''/'' \<notin> set f" and "ext \<in> {''jpg'', ''png'', ''bmp'', ''gif''}"
  shows "valid_name (fst (splitext f) @ ''.'' @ ext)"
proof -
  have "CHR ''/'' \<notin> set (fst (splitext f))"
    using assms(1) splitext_stem_set [of f] by blast
  moreover have "CHR ''/'' \<notin> set ext" "length ext = 3"
    using assms(2) by auto
  moreover have "length (fst (splitext f) @ ''.'' @ ext) \<noteq> 1"
    "length (fst (splitext f) @ ''.'' @ ext) \<noteq> 2"
    using \<open>length ext = 3\<close> by simp_all
  then have "fst (splitext f) @ ''.'' @ ext \<noteq> ''.''" "fst (splitext f) @ ''.'' @ ext \<noteq> ''..''"
    by (metis length_Cons list.size(3) One_nat_def, metis length_Cons list.size(3) numeral_2_eq_2)
  ultimately show ?thesis
    by (simp add: valid_name_def)
qed

lemma splitext_join:
  assumes "valid_name f" and "ext \<in> {''jpg'', ''png'', ''bmp'', ''gif''}"
  shows "fst (splitext (join x f)) @ ''.'' @ ext = join x (fst (splitext f) @ ''.'' @ ext)"
proof -
  have sf: "CHR ''/'' \<notin> set f" using assms(1) by (simp add: valid_name_def)
  define g where "g = fst (splitext f) @ ''.'' @ ext"
  have g: "valid_name g"
    unfolding g_def using sf assms(2) by (rule new_name_valid)
  define pre where "pre = (if x = [] \<or> last x = CHR ''/'' then x else x @ ''/'')"
  have p: "pre = [] \<or> last pre = CHR ''/''" by (simp add: pre_def)
  have "join x f = pre @ f"
    by (simp add: join_valid [OF assms(1)] pre_def)
  then have "fst (splitext (join x f)) @ ''.'' @ ext = pre @ g"
    by (simp add: splitext_below [OF sf p] g_def)
  moreover have "join x g = pre @ g"
    by (simp add: join_valid [OF g] pre_def)
  ultimately show ?thesis
    unfolding g_def by simp
qed

lemma join_all_snoc: "join_all a (ds @ [f]) = join (join_all a ds) f"
  by (simp add: join_all_def)

lemma splitext_join_all:
  assumes "valid_name f" and "ext \<in> {''jpg'', ''png'', ''bmp'', ''gif''}"
  shows "fst (splitext (join_all a (ds @ [f]))) @ ''.'' @ ext
           = join_all a (ds @ [fst (splitext f) @ ''.'' @ ext])"
  by (simp only: join_all_snoc splitext_join [OF assms])

section \<open>Joining a relative path\<close>

lemma join_append: "valid_name n \<Longrightarrow> join a (n @ r) = join a n @ r"
  using valid_name_hd [of n]
  by (cases n) (auto simp add: join_def startswith_slash valid_name_def)

lemma foldl_join:
  assumes "list_all valid_name ns" and "x \<noteq> []" and "last x \<noteq> CHR ''/''"
  shows "foldl join x ns = x @ concat (map (\<lambda>m. ''/'' @ m) ns)"
  using assms
proof (induction ns arbitrary: x)
  case Nil
  then show ?case by simp
next
  case (Cons n ns)
  have v: "valid_name n" using Cons.prems(1) by simp
  have j: "join x n = x @ ''/'' @ n"
    using Cons.prems(2,3) by (simp add: join_valid [OF v])
  have "foldl join (join x n) ns = join x n @ concat (map (\<lambda>m. ''/'' @ m) ns)"
    using Cons.prems(1) join_nonempty [OF v, of x] join_last [OF v, of x] valid_name_last [OF v]
    by (intro Cons.IH) simp_all
  then show ?case by (simp add: j)
qed

lemma join_sep_join:
  assumes "list_all valid_name ns" and "ns \<noteq> []"
  shows "join a (sep_join ns) = join_all a ns"
proof -
  obtain n ms where ns: "ns = n # ms" using assms(2) by (cases ns) auto
  have v: "valid_name n" "list_all valid_name ms" using assms(1) by (simp_all add: ns)
  have n: "n \<noteq> []" "last n \<noteq> CHR ''/''"
    using v(1) valid_name_last by (simp_all add: valid_name_nonempty)
  have "sep_join ns = n @ concat (map (\<lambda>m. ''/'' @ m) ms)"
    using join_all_sep_join [OF assms(1) [unfolded ns]] foldl_join [OF v(2) n]
    by (simp add: ns join_all_def)
  moreover have "join_all a ns = join a n @ concat (map (\<lambda>m. ''/'' @ m) ms)"
    using foldl_join [OF v(2), of "join a n"] join_nonempty [OF v(1), of a] join_last [OF v(1), of a] n
    by (simp add: ns join_all_def)
  ultimately show ?thesis
    by (simp add: join_append [OF v(1)])
qed

lemma sep_join_join_all:
  assumes "list_all valid_name ns" and "ns \<noteq> []"
  shows "sep_join ns = join_all [] ns"
proof -
  obtain n ms where ns: "ns = n # ms" using assms(2) by (cases ns) auto
  have "join [] n = n" using assms(1) by (simp add: ns join_valid)
  then show ?thesis
    using join_all_sep_join [OF assms(1) [unfolded ns]] by (simp add: ns join_all_def)
qed

section \<open>The walk\<close>

lemma file_names_valid: "valid_entries es \<Longrightarrow> list_all valid_name (file_names es)"
  by (induction es rule: file_names.induct) simp_all

lemma join_all_Cons: "join_all (join a d) ds = join_all a (d # ds)"
  by (simp add: join_all_def)

lemma walk_roots:
  "valid_entries entries \<longrightarrow>
     (\<forall>rf \<in> set (walk topdir entries).
        \<exists>ds. list_all valid_name ds \<and> fst rf = join_all topdir ds \<and> list_all valid_name (snd rf))"
  "valid_entries entries' \<longrightarrow>
     (\<forall>rf \<in> set (walk_dirs topdir' entries').
        \<exists>ds. list_all valid_name ds \<and> fst rf = join_all topdir' ds \<and> list_all valid_name (snd rf))"
proof (induction topdir entries and topdir' entries' rule: walk_walk_dirs.induct)
  case (1 topdir entries)
  show ?case
  proof (intro impI ballI)
    fix rf
    assume v: "valid_entries entries" and "rf \<in> set (walk topdir entries)"
    then consider "rf = (topdir, file_names entries)" | "rf \<in> set (walk_dirs topdir entries)"
      by auto
    then show "\<exists>ds. list_all valid_name ds \<and> fst rf = join_all topdir ds \<and>
                    list_all valid_name (snd rf)"
    proof cases
      case 1
      then show ?thesis
        using file_names_valid [OF v] by (intro exI [of _ "[]"]) (simp add: join_all_def)
    next
      case 2
      then show ?thesis using "1.IH" v by blast
    qed
  qed
next
  case (2 topdir)
  then show ?case by simp
next
  case (3 topdir f es)
  then show ?case by simp
next
  case (4 topdir d sub es)
  show ?case
  proof (intro impI ballI)
    fix rf
    assume v: "valid_entries (Dir d sub # es)"
      and "rf \<in> set (walk_dirs topdir (Dir d sub # es))"
    then consider "rf \<in> set (walk (join topdir d) sub)" | "rf \<in> set (walk_dirs topdir es)"
      by auto
    then show "\<exists>ds. list_all valid_name ds \<and> fst rf = join_all topdir ds \<and>
                    list_all valid_name (snd rf)"
    proof cases
      case 1
      then obtain ds where "list_all valid_name ds" "fst rf = join_all (join topdir d) ds"
        "list_all valid_name (snd rf)"
        using "4.IH"(1) v by auto
      then show ?thesis
        using v by (intro exI [of _ "d # ds"]) (simp add: join_all_Cons)
    next
      case 2
      then show ?thesis using "4.IH"(2) v by auto
    qed
  qed
qed

lemma in_joined_files:
  "p \<in> set (concat (map (\<lambda>(root, files). map (join root) (filter is_image_name files)) xs))
   \<Longrightarrow> \<exists>rf \<in> set xs. \<exists>f \<in> set (snd rf). p = join (fst rf) f"
  by (induction xs) auto

lemma all_image_paths_form:
  assumes "valid_entries entries" and "p \<in> set (all_image_paths input_dir entries)"
  shows "\<exists>ns. list_all valid_name ns \<and> ns \<noteq> [] \<and> p = join_all input_dir ns"
proof -
  from assms(2) have "\<exists>rf \<in> set (walk input_dir entries). \<exists>f \<in> set (snd rf). p = join (fst rf) f"
    unfolding all_image_paths_def by (rule in_joined_files)
  then obtain rf f where rf: "rf \<in> set (walk input_dir entries)"
    and f: "f \<in> set (snd rf)" and p: "p = join (fst rf) f"
    by blast
  from walk_roots(1) [of entries input_dir] assms(1) rf obtain ds where
    ds: "list_all valid_name ds" "fst rf = join_all input_dir ds" "list_all valid_name (snd rf)"
    by blast
  have "valid_name f" using ds(3) f by (simp add: list_all_iff)
  then show ?thesis
    using ds(1,2) p by (intro exI [of _ "ds @ [f]"]) (simp add: join_all_snoc)
qed

section \<open>One file, then all of them\<close>

lemma resize_image_path:
  assumes "resize_image opened output_path max_size min_size keep_format = Inr s"
  shows "\<exists>ext \<in> {''jpg'', ''png'', ''bmp'', ''gif''}.
           sv_path s = fst (splitext output_path) @ ''.'' @ ext"
proof -
  from resize_image_Inr [OF assms] obtain resized_img orig where
    s: "s = save_resized resized_img orig output_path keep_format"
    by blast
  have "sv_path s = fst (splitext output_path) @ ''.'' @ fst (choose_format keep_format orig)"
    unfolding s save_resized_def by (simp split: prod.splits)
  then show ?thesis
    using choose_format_extension [of keep_format orig] by blast
qed

lemma mirrored_step:
  assumes "isabs cwd" and "list_all valid_name ns" and "ns \<noteq> []"
    and "relpath cwd (join_all input_dir ns) input_dir = Inr rel"
    and "resize_image opened (join output_dir rel) max_size min_size keep_format = Inr s"
  shows "mirrored cwd input_dir output_dir (join_all input_dir ns) s"
proof -
  obtain ds f where ns: "ns = ds @ [f]"
    using assms(3) by (metis append_butlast_last_id)
  have v: "list_all valid_name ds" "valid_name f" using assms(2) by (simp_all add: ns)
  have rel: "rel = sep_join ns"
    using assms(4) relpath_below [OF assms(1,2,3), of input_dir] by simp
  from resize_image_path [OF assms(5)] obtain ext where
    ext: "ext \<in> {''jpg'', ''png'', ''bmp'', ''gif''}"
    and path: "sv_path s = fst (splitext (join output_dir rel)) @ ''.'' @ ext"
    by blast
  define g where "g = fst (splitext f) @ ''.'' @ ext"
  have g: "valid_name g"
    unfolding g_def using v(2) ext by (intro new_name_valid) (simp_all add: valid_name_def)
  have vg: "list_all valid_name (ds @ [g])" "ds @ [g] \<noteq> []"
    using v(1) g by simp_all
  have "join output_dir rel = join_all output_dir (ds @ [f])"
    unfolding rel ns using assms(2,3) [unfolded ns] by (rule join_sep_join)
  then have "sv_path s = join_all output_dir (ds @ [g])"
    unfolding path g_def using splitext_join_all [OF v(2) ext] by simp
  then have out: "relpath cwd (sv_path s) output_dir = Inr (sep_join (ds @ [g]))"
    using relpath_below [OF assms(1) vg, of output_dir] by simp
  have "rel = join_all [] (ds @ [f])"
    unfolding rel ns using assms(2,3) [unfolded ns] by (rule sep_join_join_all)
  then have "fst (splitext rel) @ ''.'' @ ext = join_all [] (ds @ [g])"
    unfolding g_def using splitext_join_all [OF v(2) ext] by simp
  also have "\<dots> = sep_join (ds @ [g])"
    using sep_join_join_all [OF vg] by simp
  finally have "relpath cwd (sv_path s) output_dir = Inr (fst (splitext rel) @ ''.'' @ ext)"
    using out by simp
  then show ?thesis
    using ext assms(4) by (auto simp add: mirrored_def)
qed

lemma resize_all_mirrored:
  assumes "isabs cwd"
    and "\<forall>p \<in> set paths. \<exists>ns. list_all valid_name ns \<and> ns \<noteq> [] \<and> p = join_all input_dir ns"
    and "resize_all cwd opener input_dir output_dir max_size min_size keep_format paths = (ws, e)"
  shows "list_all2 (mirrored cwd input_dir output_dir) (take (length ws) paths) ws \<and>
         length ws \<le> length paths \<and> (e = None \<longrightarrow> length ws = length paths)"
  using assms(2,3)
proof (induction paths arbitrary: ws e)
  case Nil
  then show ?case by simp
next
  case (Cons p paths)
  from Cons.prems(1) obtain ns where
    ns: "list_all valid_name ns" "ns \<noteq> []" "p = join_all input_dir ns"
    by auto
  have rel: "relpath cwd p input_dir = Inr (sep_join ns)"
    unfolding ns(3) using assms(1) ns(1,2) by (rule relpath_below)
  show ?case
  proof (cases "resize_image (opener p) (join output_dir (sep_join ns))
                  max_size min_size keep_format")
    case (Inl err)
    then have "ws = []" "e = Some err" using Cons.prems(2) rel by auto
    then show ?thesis by simp
  next
    case (Inr s)
    obtain ws' e' where
      r: "resize_all cwd opener input_dir output_dir max_size min_size keep_format paths = (ws', e')"
      by (cases "resize_all cwd opener input_dir output_dir max_size min_size keep_format paths")
    have w: "ws = s # ws'" "e = e'"
      using Cons.prems(2) rel Inr r by simp_all
    have m: "mirrored cwd input_dir output_dir p s"
      unfolding ns(3) using assms(1) ns(1,2) rel [unfolded ns(3)] Inr by (rule mirrored_step)
    have "list_all2 (mirrored cwd input_dir output_dir) (take (length ws') paths) ws' \<and>
         length ws' \<le> length paths \<and> (e' = None \<longrightarrow> length ws' = length paths)"
      using Cons.prems(1) r by (intro Cons.IH) simp_all
    then show ?thesis using m by (simp add: w)
  qed
qed

text \<open>
  C6. In a well-formed tree, with an absolute current directory, the files that
  \<^verbatim>\<open>resize_dataset\<close> saves are, in order, one for each discovered file up to the point
  where an exception stops the loop (all of them when none does), and each has, relative
  to \<open>output_dir\<close>, the path of its source relative to \<open>input_dir\<close> with the extension
  stripped by \<open>splitext\<close> and replaced by \<open>jpg\<close>, \<open>png\<close>, \<open>bmp\<close> or \<open>gif\<close>. Nothing else
  is saved.
\<close>

theorem tree_mirroring:
  assumes "isabs cwd" and "valid_entries entries"
    and "resize_dataset cwd opener entries input_dir output_dir max_size min_size keep_format
           = (ws, e)"
  shows "list_all2 (mirrored cwd input_dir output_dir)
           (take (length ws) (all_image_paths input_dir entries)) ws \<and>
         length ws \<le> length (all_image_paths input_dir entries) \<and>
         (e = None \<longrightarrow> length ws = length (all_image_paths input_dir entries))"
proof (rule resize_all_mirrored [OF assms(1)])
  show "\<forall>p \<in> set (all_image_paths input_dir entries).
          \<exists>ns. list_all valid_name ns \<and> ns \<noteq> [] \<and> p = join_all input_dir ns"
    using all_image_paths_form [OF assms(2)] by blast
  show "resize_all cwd opener input_dir output_dir max_size min_size keep_format
          (all_image_paths input_dir entries) = (ws, e)"
    using assms(3) by (simp add: resize_dataset_def)
qed

theorem tree_mirroring_witness:
  "\<exists>ws. resize_dataset ''/home/u'' (\<lambda>p. Inr example_image)
           [Dir ''a'' [Dir ''b'' [File ''c.jpeg'', File ''notes.txt'']]] ''IN'' ''OUT''
           (Some 800) None False = (ws, None) \<and>
         map sv_path ws = [''OUT/a/b/c.png''] \<and>
         list_all2 (mirrored ''/home/u'' ''IN'' ''OUT'') [''IN/a/b/c.jpeg''] ws"
proof -
  let ?entries = "[Dir ''a'' [Dir ''b'' [File ''c.jpeg'', File ''notes.txt'']]]"
  have p: "all_image_paths ''IN'' ?entries = [''IN/a/b/c.jpeg'']"
    by code_simp
  have r: "relpath ''/home/u'' ''IN/a/b/c.jpeg'' ''IN'' = Inr ''a/b/c.jpeg''"
    by code_simp
  have j: "join ''OUT'' ''a/b/c.jpeg'' = ''OUT/a/b/c.jpeg''"
    by code_simp
  obtain s where s: "resize_image (Inr example_image) ''OUT/a/b/c.jpeg'' (Some 800) None False = Inr s"
    and sp: "sv_path s = ''OUT/a/b/c.png''"
    using resize_image_example [of False] by simp
  have d: "resize_dataset ''/home/u'' (\<lambda>p. Inr example_image) ?entries ''IN'' ''OUT''
             (Some 800) None False = ([s], None)"
    by (simp add: resize_dataset_def p r j s)
  have c: "isabs ''/home/u''"
    by code_simp
  have v: "valid_entries ?entries"
    by code_simp
  from tree_mirroring [OF c v d]
  have "list_all2 (mirrored ''/home/u'' ''IN'' ''OUT'') [''IN/a/b/c.jpeg''] [s]"
    by (simp add: p)
  with d sp show ?thesis
    by (intro exI [of _ "[s]"]) simp
qed

end
